theory Spec2Isabelle
  imports Complex_Main "HOL-Library.Sublist"
begin

section \<open>Data model\<close>

text \<open>
  A position is a pair of coordinates. The program computes with numpy doubles; the
  embedding computes with real numbers, and a division whose divisor is zero (numpy
  warns and yields nan or inf) is the error value \<open>DivisionByZero\<close>. \<open>min\<close> and
  \<open>max\<close> of an empty Python list raise \<open>ValueError\<close>.
\<close>

type_synonym pos = "real \<times> real"

datatype error = ValueError | DivisionByZero

text \<open>The obstacle dictionary, in insertion order: name and corner points.\<close>

type_synonym walls = "(string \<times> pos list) list"

definition vsub :: "pos \<Rightarrow> pos \<Rightarrow> pos" where
  "vsub a b = (fst a - fst b, snd a - snd b)"

definition vadd :: "pos \<Rightarrow> pos \<Rightarrow> pos" where
  "vadd a b = (fst a + fst b, snd a + snd b)"

definition vscale :: "pos \<Rightarrow> real \<Rightarrow> pos" where
  "vscale a c = (fst a * c, snd a * c)"

text \<open>\<open>np.linalg.norm\<close> of a vector of two components.\<close>

definition norm2 :: "pos \<Rightarrow> real" where
  "norm2 v = sqrt ((fst v)\<^sup>2 + (snd v)\<^sup>2)"

text \<open>\<open>direction / norm\<close>: the division of an array by a scalar.\<close>

definition vdiv :: "pos \<Rightarrow> real \<Rightarrow> error + pos" where
  "vdiv a c = (if c = 0 then Inl DivisionByZero else Inr (fst a / c, snd a / c))"

text \<open>Python's \<open>min\<close> and \<open>max\<close> of a list.\<close>

definition py_min :: "real list \<Rightarrow> error + real" where
  "py_min xs = (case xs of [] \<Rightarrow> Inl ValueError | y # ys \<Rightarrow> Inr (fold min ys y))"

definition py_max :: "real list \<Rightarrow> error + real" where
  "py_max xs = (case xs of [] \<Rightarrow> Inl ValueError | y # ys \<Rightarrow> Inr (fold max ys y))"

text \<open>
  The four extremal coordinates of a list of corner points, computed in the order
  \<open>x_min, x_max, y_min, y_max\<close> as \<open>is_in_goal_area\<close> and \<open>is_collision_free\<close> do.
\<close>

definition extremes :: "pos list \<Rightarrow> error + (real \<times> real \<times> real \<times> real)" where
  "extremes coords =
     (case py_min (map fst coords) of Inl e \<Rightarrow> Inl e | Inr x_min \<Rightarrow>
      case py_max (map fst coords) of Inl e \<Rightarrow> Inl e | Inr x_max \<Rightarrow>
      case py_min (map snd coords) of Inl e \<Rightarrow> Inl e | Inr y_min \<Rightarrow>
      case py_max (map snd coords) of Inl e \<Rightarrow> Inl e | Inr y_max \<Rightarrow>
      Inr (x_min, x_max, y_min, y_max))"

section \<open>Geometry and collision tests\<close>

definition is_in_goal_area :: "pos \<Rightarrow> pos list \<Rightarrow> error + bool" where
  "is_in_goal_area point goal_area =
     (case extremes goal_area of Inl e \<Rightarrow> Inl e
      | Inr (x_min, x_max, y_min, y_max) \<Rightarrow>
          Inr (x_min \<le> fst point \<and> fst point \<le> x_max \<and> y_min \<le> snd point \<and> snd point \<le> y_max))"

text \<open>The loop of \<open>is_collision_free\<close> over the walls, leaving at the first hit.\<close>

fun walls_loop :: "pos \<Rightarrow> real \<Rightarrow> walls \<Rightarrow> error + bool" where
  "walls_loop xe safety_margin [] = Inr True"
| "walls_loop xe safety_margin ((wall, coordinates) # rest) =
     (case extremes coordinates of Inl e \<Rightarrow> Inl e
      | Inr (x_min, x_max, y_min, y_max) \<Rightarrow>
          if x_min - safety_margin \<le> fst xe \<and> fst xe \<le> x_max + safety_margin
             \<and> y_min - safety_margin \<le> snd xe \<and> snd xe \<le> y_max + safety_margin
          then Inr False
          else walls_loop xe safety_margin rest)"

definition is_collision_free :: "pos \<Rightarrow> walls \<Rightarrow> real \<Rightarrow> error + bool" where
  "is_collision_free xe walls safety_margin =
     (if fst xe < - 0.5 \<or> fst xe > 1.5 \<or> snd xe < - 0.4 \<or> snd xe > 0.4
      then Inr False
      else walls_loop xe safety_margin walls)"

text \<open>The default of the parameter \<open>safety_margin\<close>, which every caller uses.\<close>

definition safety_margin_default :: real where
  "safety_margin_default = 0.1"

text \<open>\<open>np.linspace(0, 1, num_samples)\<close>.\<close>

definition linspace01 :: "nat \<Rightarrow> real list" where
  "linspace01 num_samples = map (\<lambda>k. real k / real (num_samples - 1)) [0..<num_samples]"

fun line_loop :: "pos \<Rightarrow> pos \<Rightarrow> walls \<Rightarrow> real list \<Rightarrow> error + bool" where
  "line_loop p1 p2 walls [] = Inr True"
| "line_loop p1 p2 walls (t # ts) =
     (case is_collision_free (vadd (vscale p1 (1 - t)) (vscale p2 t)) walls safety_margin_default of
        Inl e \<Rightarrow> Inl e
      | Inr free \<Rightarrow> if \<not> free then Inr False else line_loop p1 p2 walls ts)"

definition is_collision_free_line :: "pos \<Rightarrow> pos \<Rightarrow> walls \<Rightarrow> nat \<Rightarrow> error + bool" where
  "is_collision_free_line p1 p2 walls num_samples = line_loop p1 p2 walls (linspace01 num_samples)"

section \<open>Kinodynamic RRT planner\<close>

text \<open>
  A node holds its position, its parent (the root has none) and the control that
  produced it. A node is never changed once it is in the tree, so the reference to the
  parent is the parent's value.
\<close>

datatype node = Node (position: pos) (parent: "node option") (control: "pos option")

text \<open>
  \<open>random.uniform(a, b)\<close> is \<open>a + (b - a) * random()\<close>; the random source is a
  parameter, a pair of draws of \<open>random()\<close> for each sample.
\<close>

definition uniform :: "real \<Rightarrow> real \<Rightarrow> real \<Rightarrow> real" where
  "uniform a b u = a + (b - a) * u"

definition sample_random_position :: "real \<times> real \<Rightarrow> pos" where
  "sample_random_position r = (uniform (- 0.5) 1.5 (fst r), uniform (- 0.4) 0.4 (snd r))"

text \<open>\<open>min(T, key=...)\<close>: the first node of least key.\<close>

fun nearest_loop :: "node \<Rightarrow> node list \<Rightarrow> pos \<Rightarrow> node" where
  "nearest_loop best [] xrand = best"
| "nearest_loop best (n # ns) xrand =
     (if norm2 (vsub (position n) xrand) < norm2 (vsub (position best) xrand)
      then nearest_loop n ns xrand
      else nearest_loop best ns xrand)"

definition nearest :: "node list \<Rightarrow> pos \<Rightarrow> error + node" where
  "nearest T xrand = (case T of [] \<Rightarrow> Inl ValueError | n # ns \<Rightarrow> Inr (nearest_loop n ns xrand))"

definition choose_control :: "pos \<Rightarrow> pos \<Rightarrow> error + pos" where
  "choose_control xnear xrand = (let direction = vsub xrand xnear in vdiv direction (norm2 direction))"

definition simulate :: "pos \<Rightarrow> pos \<Rightarrow> real \<Rightarrow> pos" where
  "simulate xnear ctrl dt = vadd xnear (vscale ctrl dt)"

definition dt_default :: real where
  "dt_default = 0.05"

text \<open>The chain of positions from a node to the root, and its reversal.\<close>

fun chain :: "node \<Rightarrow> pos list" where
  "chain (Node p None c) = [p]"
| "chain (Node p (Some n) c) = p # chain n"

definition construct_path :: "node \<Rightarrow> pos list" where
  "construct_path n = rev (chain n)"

text \<open>
  The loop of \<open>kinodynamic_rrt\<close> over the draws of the remaining iterations. It
  returns the tree, and the node that reached the goal area when one did.
\<close>

fun rrt_loop :: "pos list \<Rightarrow> walls \<Rightarrow> (real \<times> real) list \<Rightarrow> node list \<Rightarrow> error + (node list \<times> node option)" where
  "rrt_loop goal_area walls [] T = Inr (T, None)"
| "rrt_loop goal_area walls (r # rs) T =
     (let xrand = sample_random_position r in
      case nearest T xrand of Inl e \<Rightarrow> Inl e | Inr xnear \<Rightarrow>
      case choose_control (position xnear) xrand of Inl e \<Rightarrow> Inl e | Inr ue \<Rightarrow>
      let xe = simulate (position xnear) ue dt_default in
      case is_collision_free xe walls safety_margin_default of Inl e \<Rightarrow> Inl e
      | Inr free \<Rightarrow>
          if free then
            (let new_node = Node xe (Some xnear) (Some ue); T' = T @ [new_node] in
             case is_in_goal_area xe goal_area of Inl e \<Rightarrow> Inl e
             | Inr reached \<Rightarrow> if reached then Inr (T', Some new_node) else rrt_loop goal_area walls rs T')
          else rrt_loop goal_area walls rs T)"

definition rrt_tree :: "pos \<Rightarrow> pos list \<Rightarrow> walls \<Rightarrow> nat \<Rightarrow> (nat \<Rightarrow> real \<times> real) \<Rightarrow> error + (node list \<times> node option)" where
  "rrt_tree start_pos goal_area walls N rnd =
     rrt_loop goal_area walls (map rnd [0..<N]) [Node start_pos None None]"

definition kinodynamic_rrt :: "pos \<Rightarrow> pos list \<Rightarrow> walls \<Rightarrow> nat \<Rightarrow> (nat \<Rightarrow> real \<times> real) \<Rightarrow> error + pos list option" where
  "kinodynamic_rrt start_pos goal_area walls N rnd =
     (case rrt_tree start_pos goal_area walls N rnd of Inl e \<Rightarrow> Inl e
      | Inr (T, None) \<Rightarrow> Inr None
      | Inr (T, Some new_node) \<Rightarrow> Inr (Some (construct_path new_node)))"

section \<open>Path smoother\<close>

text \<open>
  \<open>sorted(random.sample(range(n), 2))\<close>: two distinct indices below \<open>n\<close>, in
  increasing order. The random source is a parameter, a pair of natural numbers for each
  attempt: the first index is the first number reduced below \<open>n\<close>, the second is
  drawn among the \<open>n - 1\<close> indices that remain.
\<close>

definition random_sample2 :: "nat \<Rightarrow> nat \<times> nat \<Rightarrow> nat \<times> nat" where
  "random_sample2 n r =
     (let a = fst r mod n;
          b0 = snd r mod (n - 1);
          b = (if b0 < a then b0 else b0 + 1)
      in (min a b, max a b))"

definition num_samples_default :: nat where
  "num_samples_default = 100"

text \<open>
  The loop of \<open>smooth_path\<close> over the draws of the remaining attempts;
  \<open>smoothed_path[:i + 1] + smoothed_path[j:]\<close> is \<open>take (i + 1) sp @ drop j sp\<close>.
\<close>

fun smooth_loop :: "walls \<Rightarrow> (nat \<times> nat) list \<Rightarrow> pos list \<Rightarrow> error + pos list" where
  "smooth_loop walls [] smoothed_path = Inr smoothed_path"
| "smooth_loop walls (r # rs) smoothed_path =
     (if length smoothed_path \<le> 2 then Inr smoothed_path
      else
        (let ij = random_sample2 (length smoothed_path) r; i = fst ij; j = snd ij in
         case is_collision_free_line (smoothed_path ! i) (smoothed_path ! j) walls num_samples_default of
           Inl e \<Rightarrow> Inl e
         | Inr free \<Rightarrow>
             if free then smooth_loop walls rs (take (i + 1) smoothed_path @ drop j smoothed_path)
             else smooth_loop walls rs smoothed_path))"

definition smooth_path :: "pos list \<Rightarrow> walls \<Rightarrow> nat \<Rightarrow> (nat \<Rightarrow> nat \<times> nat) \<Rightarrow> error + pos list" where
  "smooth_path path walls max_attempts rnd = smooth_loop walls (map rnd [0..<max_attempts]) path"

text \<open>An obstacle set is well formed when every obstacle has a corner point.\<close>

definition wf_walls :: "walls \<Rightarrow> bool" where
  "wf_walls walls = list_all (\<lambda>w. snd w \<noteq> []) walls"

subsection \<open>The smoother on list objects\<close>

text \<open>
  The same function with Python's list objects made explicit: the store holds the list
  objects, an address is an index into it, and every list the function builds
  (\<open>list(path)\<close>, the concatenation of the two slices) is a new object. The function
  takes the address of the caller's list and returns the address of its result.
\<close>

type_synonym store = "pos list list"

definition alloc :: "store \<Rightarrow> pos list \<Rightarrow> store \<times> nat" where
  "alloc h xs = (h @ [xs], length h)"

fun smooth_loop_store :: "walls \<Rightarrow> (nat \<times> nat) list \<Rightarrow> store \<Rightarrow> nat \<Rightarrow> error + (store \<times> nat)" where
  "smooth_loop_store walls [] h smoothed_path = Inr (h, smoothed_path)"
| "smooth_loop_store walls (r # rs) h smoothed_path =
     (let xs = h ! smoothed_path in
      if length xs \<le> 2 then Inr (h, smoothed_path)
      else
        (let ij = random_sample2 (length xs) r; i = fst ij; j = snd ij in
         case is_collision_free_line (xs ! i) (xs ! j) walls num_samples_default of
           Inl e \<Rightarrow> Inl e
         | Inr free \<Rightarrow>
             if free then
               (let hs = alloc h (take (i + 1) xs @ drop j xs) in
                smooth_loop_store walls rs (fst hs) (snd hs))
             else smooth_loop_store walls rs h smoothed_path))"

definition smooth_path_store :: "store \<Rightarrow> nat \<Rightarrow> walls \<Rightarrow> nat \<Rightarrow> (nat \<Rightarrow> nat \<times> nat) \<Rightarrow> error + (store \<times> nat)" where
  "smooth_path_store h path walls max_attempts rnd =
     (let hs = alloc h (h ! path) in
      smooth_loop_store walls (map rnd [0..<max_attempts]) (fst hs) (snd hs))"

section \<open>PID trajectory follower\<close>

record PIDController =
  kp :: real
  ki :: real
  kd :: real
  setpoint :: real
  previous_error :: real
  integral :: real

text \<open>\<open>PIDController.compute\<close>: the output and the controller after the call.\<close>

definition compute :: "PIDController \<Rightarrow> real \<Rightarrow> real \<Rightarrow> error + (real \<times> PIDController)" where
  "compute pid current_value dt =
     (let err = setpoint pid - current_value;
          p_term = kp pid * err;
          integral' = integral pid + err * dt;
          i_term = ki pid * integral'
      in if dt = 0 then Inl DivisionByZero
         else
           (let d_term = kd pid * (err - previous_error pid) / dt
            in Inr (p_term + i_term + d_term, pid\<lparr>previous_error := err, integral := integral'\<rparr>)))"

text \<open>
  The simulation is a parameter: \<open>xpos\<close> reads the position of the ball and
  \<open>mj_step\<close> advances the simulation under the control vector written to \<open>data.ctrl\<close>.
\<close>

record 's simulation =
  xpos :: "'s \<Rightarrow> pos"
  mj_step :: "'s \<Rightarrow> pos \<Rightarrow> 's"

text \<open>
  The variables of \<open>move_ball_along_path_with_pid\<close>. \<open>ctrl_log\<close> records the control
  vectors written to \<open>data.ctrl\<close>, one for each step of the simulation.
\<close>

record 's follower =
  pid_x :: PIDController
  pid_y :: PIDController
  data :: 's
  ctrl_log :: "pos list"
  deviation_data :: "real list"
  time_data :: "real list"
  time_elapsed :: real

definition dt_control :: real where
  "dt_control = 0.01"

definition max_speed :: real where
  "max_speed = 10"

definition min_speed :: real where
  "min_speed = 1"

definition slowdown_distance :: real where
  "slowdown_distance = 1.0"

text \<open>Lines 236 to 239: the desired speed from the distance to the end of the segment.\<close>

definition desired_speed_of :: "real \<Rightarrow> real" where
  "desired_speed_of distance_to_goal =
     (if distance_to_goal < slowdown_distance
      then max min_speed ((distance_to_goal / slowdown_distance) * max_speed)
      else max_speed)"

text \<open>Lines 249 to 255: the control signals after the normalization.\<close>

definition normalize_control :: "pos \<Rightarrow> real \<Rightarrow> pos" where
  "normalize_control control_vector desired_speed =
     (let control_magnitude = norm2 control_vector in
      if control_magnitude > 0
      then (fst control_vector / control_magnitude * desired_speed,
            snd control_vector / control_magnitude * desired_speed)
      else control_vector)"

text \<open>Line 280: the deviation sample, with the precedence of the operators as written.\<close>

definition deviation_of :: "pos \<Rightarrow> pos \<Rightarrow> pos \<Rightarrow> error + real" where
  "deviation_of A B P =
     (let d = sqrt ((fst B - fst A)\<^sup>2 + (snd B - snd A)\<^sup>2) in
      if d = 0 then Inl DivisionByZero
      else Inr ((fst B - fst A) * (snd A - snd P) - (fst A - fst P) * (snd B - snd A) / d))"

text \<open>
  One pass of the body of the \<open>while True\<close> loop: \<open>None\<close> is the \<open>break\<close>.
  \<open>ball_pos\<close> is a slice of \<open>data.xpos\<close>, a view of the buffer of the simulation, so
  the deviation, computed after \<open>mj_step\<close>, reads the position after the step.
\<close>

definition tick :: "'s simulation \<Rightarrow> pos \<Rightarrow> pos \<Rightarrow> 's follower \<Rightarrow> error + 's follower option" where
  "tick sim start_pos end_pos st =
     (let ball_pos = xpos sim (data st);
          distance_to_goal = norm2 (vsub end_pos ball_pos)
      in if distance_to_goal < 0.05 then Inr None
         else
           (let desired_speed = desired_speed_of distance_to_goal in
            case compute (pid_x st) (fst ball_pos) dt_control of Inl e \<Rightarrow> Inl e
            | Inr cx \<Rightarrow>
            case compute (pid_y st) (snd ball_pos) dt_control of Inl e \<Rightarrow> Inl e
            | Inr cy \<Rightarrow>
              (let c = normalize_control (fst cx, fst cy) desired_speed;
                   data' = mj_step sim (data st) c
               in case deviation_of start_pos end_pos (xpos sim data') of Inl e \<Rightarrow> Inl e
                  | Inr deviation \<Rightarrow>
                      Inr (Some (st\<lparr>pid_x := snd cx, pid_y := snd cy, data := data',
                                    ctrl_log := ctrl_log st @ [c],
                                    deviation_data := deviation_data st @ [deviation],
                                    time_data := time_data st @ [time_elapsed st],
                                    time_elapsed := time_elapsed st + dt_control\<rparr>)))))"

text \<open>
  The \<open>while True\<close> loop of one segment may run forever: it runs on fuel, one unit for
  each pass, and \<open>None\<close> says that the fuel ran out before the \<open>break\<close>.
\<close>

fun segment_loop :: "nat \<Rightarrow> 's simulation \<Rightarrow> pos \<Rightarrow> pos \<Rightarrow> 's follower \<Rightarrow> error + 's follower option" where
  "segment_loop 0 sim start_pos end_pos st = Inr None"
| "segment_loop (Suc fuel) sim start_pos end_pos st =
     (case tick sim start_pos end_pos st of Inl e \<Rightarrow> Inl e
      | Inr None \<Rightarrow> Inr (Some st)
      | Inr (Some st') \<Rightarrow> segment_loop fuel sim start_pos end_pos st')"

text \<open>The loop over the segments of the path; each segment has its own fuel.\<close>

fun segments_loop :: "nat \<Rightarrow> 's simulation \<Rightarrow> pos list \<Rightarrow> 's follower \<Rightarrow> error + 's follower option" where
  "segments_loop fuel sim (start_pos # end_pos # rest) st =
     (let line_direction = vsub end_pos start_pos;
          line_length = norm2 line_direction
      in case vdiv line_direction line_length of Inl e \<Rightarrow> Inl e
         | Inr line_direction_normalized \<Rightarrow>
            (let st1 = st\<lparr>pid_x := (pid_x st)\<lparr>setpoint := fst end_pos\<rparr>,
                          pid_y := (pid_y st)\<lparr>setpoint := snd end_pos\<rparr>\<rparr>
             in case segment_loop fuel sim start_pos end_pos st1 of Inl e \<Rightarrow> Inl e
                | Inr None \<Rightarrow> Inr None
                | Inr (Some st2) \<Rightarrow> segments_loop fuel sim (end_pos # rest) st2))"
| "segments_loop fuel sim path st = Inr (Some st)"

definition move_ball_along_path_with_pid ::
  "nat \<Rightarrow> 's simulation \<Rightarrow> 's \<Rightarrow> pos list \<Rightarrow> PIDController \<Rightarrow> PIDController \<Rightarrow> error + 's follower option" where
  "move_ball_along_path_with_pid fuel sim d path px py =
     segments_loop fuel sim path
       \<lparr>pid_x = px, pid_y = py, data = d, ctrl_log = [], deviation_data = [], time_data = [],
        time_elapsed = 0\<rparr>"

text \<open>\<open>PIDController(kp, ki, kd)\<close>, with the default set point.\<close>

definition PIDController_init :: "real \<Rightarrow> real \<Rightarrow> real \<Rightarrow> PIDController" where
  "PIDController_init p i d =
     \<lparr>kp = p, ki = i, kd = d, setpoint = 0, previous_error = 0, integral = 0\<rparr>"

section \<open>The scenario of the main program\<close>

definition goal_area_main :: "pos list" where
  "goal_area_main = [(0.9, - 0.3), (0.9, 0.3), (1.1, 0.3), (1.1, - 0.3)]"

definition walls_main :: walls where
  "walls_main = [(''wall_3'', [(0.5, - 0.15), (0.5, 0.15), (0.6, 0.15), (0.6, - 0.15)])]"

definition start_pos_main :: pos where
  "start_pos_main = (0, 0)"

section \<open>Properties of the collision tests\<close>

lemma extremes_total: "coords \<noteq> [] \<Longrightarrow> \<exists>b. extremes coords = Inr b"
  by (cases coords) (simp_all add: extremes_def py_min_def py_max_def)

lemma extremes_Inr_nonempty: "extremes coords = Inr b \<Longrightarrow> coords \<noteq> []"
  by (cases coords) (simp_all add: extremes_def py_min_def)

lemma walls_loop_total: "wf_walls walls \<Longrightarrow> \<exists>b. walls_loop xe m walls = Inr b"
proof (induction walls)
  case Nil
  then show ?case by auto
next
  case (Cons w ws)
  obtain name coords where w: "w = (name, coords)" by (cases w)
  from Cons.prems have ne: "coords \<noteq> []" and wf: "wf_walls ws"
    by (simp_all add: wf_walls_def w)
  from extremes_total[OF ne] obtain b where b: "extremes coords = Inr b" by blast
  obtain x1 x2 y1 y2 where bb: "b = (x1, x2, y1, y2)" by (cases b)
  from Cons.IH[OF wf] show ?case by (auto simp add: w b bb)
qed

lemma walls_loop_True_wf: "walls_loop xe m walls = Inr True \<Longrightarrow> wf_walls walls"
proof (induction walls)
  case Nil
  then show ?case by (simp add: wf_walls_def)
next
  case (Cons w ws)
  obtain name coords where w: "w = (name, coords)" by (cases w)
  from Cons.prems obtain b where b: "extremes coords = Inr b"
    by (cases "extremes coords") (simp_all add: w)
  obtain x1 x2 y1 y2 where bb: "b = (x1, x2, y1, y2)" by (cases b)
  from Cons.prems have "walls_loop xe m ws = Inr True"
    by (simp add: w b bb split: if_splits)
  with Cons.IH have "wf_walls ws" by simp
  with extremes_Inr_nonempty[OF b] show ?case by (simp add: wf_walls_def w)
qed

lemma is_collision_free_total: "wf_walls walls \<Longrightarrow> \<exists>b. is_collision_free xe walls m = Inr b"
  using walls_loop_total[of walls xe m] by (auto simp add: is_collision_free_def)

lemma is_collision_free_True_wf: "is_collision_free xe walls m = Inr True \<Longrightarrow> wf_walls walls"
  by (auto simp add: is_collision_free_def split: if_splits dest: walls_loop_True_wf)

lemma line_loop_total: "wf_walls walls \<Longrightarrow> \<exists>b. line_loop p1 p2 walls ts = Inr b"
proof (induction ts)
  case Nil
  then show ?case by auto
next
  case (Cons t ts)
  from is_collision_free_total[OF Cons.prems] obtain b where
    "is_collision_free (vadd (vscale p1 (1 - t)) (vscale p2 t)) walls safety_margin_default = Inr b"
    by blast
  with Cons.IH[OF Cons.prems] show ?case by auto
qed

lemma line_loop_True_wf:
  assumes "line_loop p1 p2 walls ts = Inr True" "ts \<noteq> []"
  shows "wf_walls walls"
proof -
  from assms(2) obtain t ts' where ts: "ts = t # ts'" by (cases ts) auto
  from assms(1) have
    "is_collision_free (vadd (vscale p1 (1 - t)) (vscale p2 t)) walls safety_margin_default = Inr True"
    by (auto simp add: ts split: sum.splits if_splits)
  then show ?thesis by (rule is_collision_free_True_wf)
qed

lemma is_collision_free_line_total:
  "wf_walls walls \<Longrightarrow> \<exists>b. is_collision_free_line p1 p2 walls n = Inr b"
  by (simp add: is_collision_free_line_def line_loop_total)

lemma is_collision_free_line_True_wf:
  "is_collision_free_line p1 p2 walls num_samples_default = Inr True \<Longrightarrow> wf_walls walls"
  by (rule line_loop_True_wf[of p1 p2 walls "linspace01 num_samples_default"])
    (simp_all add: is_collision_free_line_def linspace01_def num_samples_default_def)

section \<open>Properties of the path smoother\<close>

lemma random_sample2_range:
  assumes "2 \<le> n" "random_sample2 n r = (i, j)"
  shows "i < j \<and> j < n"
proof -
  define a where "a = fst r mod n"
  define b0 where "b0 = snd r mod (n - 1)"
  define b where "b = (if b0 < a then b0 else b0 + 1)"
  have a: "a < n" using assms(1) by (simp add: a_def)
  have b0: "b0 < n - 1" using assms(1) by (simp add: b0_def)
  have ne: "a \<noteq> b" by (auto simp: b_def)
  have bn: "b < n" using b0 a by (auto simp: b_def)
  have "random_sample2 n r = (min a b, max a b)"
    by (simp add: random_sample2_def Let_def a_def b0_def b_def)
  with assms(2) have "i = min a b" "j = max a b" by simp_all
  then show ?thesis using a bn ne by (simp add: min_def max_def)
qed

text \<open>Every pair of increasing indices below \<open>n\<close> is the outcome of some draw.\<close>

lemma random_sample2_onto:
  assumes "i < j" "j < n"
  shows "random_sample2 n (i, j - 1) = (i, j)"
  using assms by (auto simp: random_sample2_def Let_def)

lemma splice_ends:
  assumes "i < j" "j < length xs"
  shows "take (i + 1) xs @ drop j xs \<noteq> []"
    and "hd (take (i + 1) xs @ drop j xs) = hd xs"
    and "last (take (i + 1) xs @ drop j xs) = last xs"
    and "length (take (i + 1) xs @ drop j xs) \<le> length xs"
proof -
  from assms have ne: "xs \<noteq> []" by auto
  show "take (i + 1) xs @ drop j xs \<noteq> []" using ne by simp
  show "hd (take (i + 1) xs @ drop j xs) = hd xs" using ne by simp
  have "drop j xs \<noteq> []" using assms by simp
  then show "last (take (i + 1) xs @ drop j xs) = last xs" using assms by simp
  show "length (take (i + 1) xs @ drop j xs) \<le> length xs" using assms by simp
qed

lemma splice_subseq:
  assumes "i < j"
  shows "subseq (take (i + 1) xs @ drop j xs) xs"
proof -
  have "xs = take (i + 1) xs @ drop (i + 1) xs" by simp
  moreover have "subseq (drop j xs) (drop (i + 1) xs)"
  proof -
    have "drop j xs = drop (j - (i + 1)) (drop (i + 1) xs)" using assms by simp
    then show ?thesis by (metis suffix_drop suffix_imp_subseq)
  qed
  ultimately show ?thesis
    by (metis subseq_append')
qed

lemma splice_successively:
  assumes "i < j" "j < length xs" "successively P xs" "P (xs ! i) (xs ! j)"
  shows "successively P (take (i + 1) xs @ drop j xs)"
proof -
  have t: "successively P (take (i + 1) xs)" and d: "successively P (drop j xs)"
    using assms(3) successively_append_iff[of P "take (i + 1) xs" "drop (i + 1) xs"]
      successively_append_iff[of P "take j xs" "drop j xs"] by simp_all
  have l: "last (take (i + 1) xs) = xs ! i"
    using assms by (simp add: take_Suc_conv_app_nth)
  have h: "hd (drop j xs) = xs ! j" using assms by (simp add: hd_drop_conv_nth)
  show ?thesis
    unfolding successively_append_iff using t d l h assms(4) by simp
qed

text \<open>
  A property that holds of the path given to the loop, and that every accepted shortcut
  keeps, holds of the path the loop returns.
\<close>

lemma smooth_loop_invariant:
  assumes "smooth_loop walls rs sp = Inr out"
    and "Q sp"
    and step: "\<And>xs i j. Q xs \<Longrightarrow> i < j \<Longrightarrow> j < length xs \<Longrightarrow>
           is_collision_free_line (xs ! i) (xs ! j) walls num_samples_default = Inr True \<Longrightarrow>
           Q (take (i + 1) xs @ drop j xs)"
  shows "Q out"
  using assms(1,2)
proof (induction rs arbitrary: sp)
  case Nil
  then show ?case by simp
next
  case (Cons r rs)
  show ?case
  proof (cases "length sp \<le> 2")
    case True
    with Cons.prems show ?thesis by simp
  next
    case False
    obtain i j where ij: "random_sample2 (length sp) r = (i, j)"
      by (cases "random_sample2 (length sp) r")
    from False random_sample2_range[OF _ ij] have range: "i < j" "j < length sp" by simp_all
    from Cons.prems(1) False obtain free where
      free: "is_collision_free_line (sp ! i) (sp ! j) walls num_samples_default = Inr free"
      by (cases "is_collision_free_line (sp ! i) (sp ! j) walls num_samples_default")
        (simp_all add: ij Let_def)
    show ?thesis
    proof (cases free)
      case True
      from Cons.prems(1) False have
        "smooth_loop walls rs (take (i + 1) sp @ drop j sp) = Inr out"
        by (simp add: ij free True Let_def)
      moreover have "Q (take (i + 1) sp @ drop j sp)"
        using step[OF Cons.prems(2) range] free True by simp
      ultimately show ?thesis by (rule Cons.IH)
    next
      case f: False
      from Cons.prems(1) False have "smooth_loop walls rs sp = Inr out"
        by (simp add: ij free f Let_def)
      then show ?thesis using Cons.prems(2) by (rule Cons.IH)
    qed
  qed
qed

lemma smooth_loop_total: "wf_walls walls \<Longrightarrow> \<exists>out. smooth_loop walls rs sp = Inr out"
proof (induction rs arbitrary: sp)
  case Nil
  then show ?case by simp
next
  case (Cons r rs)
  show ?case
  proof (cases "length sp \<le> 2")
    case True
    then show ?thesis by simp
  next
    case False
    obtain i j where ij: "random_sample2 (length sp) r = (i, j)"
      by (cases "random_sample2 (length sp) r")
    from is_collision_free_line_total[OF Cons.prems] obtain b where
      b: "is_collision_free_line (sp ! i) (sp ! j) walls num_samples_default = Inr b" by blast
    show ?thesis using False Cons.IH[OF Cons.prems] by (simp add: ij b Let_def)
  qed
qed

lemma smooth_loop_short: "length sp \<le> 2 \<Longrightarrow> smooth_loop walls rs sp = Inr sp"
  by (cases rs) simp_all

lemma smooth_loop_subseq:
  assumes "smooth_loop walls rs sp = Inr out"
  shows "subseq out sp"
proof (rule smooth_loop_invariant[where Q = "\<lambda>xs. subseq xs sp", OF assms])
  show "subseq sp sp" by simp
next
  fix xs :: "pos list" and i j :: nat
  assume "subseq xs sp" "i < j"
  then show "subseq (take (i + 1) xs @ drop j xs) sp"
    using splice_subseq[of i j xs] by (metis subseq_order.order_trans)
qed

text \<open>
  The loop on list objects returns the address of an object that holds what the loop on
  values returns, and it leaves every object of the store it was given as it was.
\<close>

lemma smooth_loop_store_sound:
  assumes "smooth_loop_store walls rs h sp = Inr (h', r)" "sp < length h"
  shows "smooth_loop walls rs (h ! sp) = Inr (h' ! r) \<and> sp \<le> r \<and> r < length h'
    \<and> take (length h) h' = h"
  using assms
proof (induction rs arbitrary: h sp)
  case Nil
  then show ?case by simp
next
  case (Cons x rs)
  let ?xs = "h ! sp"
  show ?case
  proof (cases "length ?xs \<le> 2")
    case True
    with Cons.prems show ?thesis by simp
  next
    case False
    obtain i j where ij: "random_sample2 (length ?xs) x = (i, j)"
      by (cases "random_sample2 (length ?xs) x")
    from Cons.prems(1) False obtain free where
      free: "is_collision_free_line (?xs ! i) (?xs ! j) walls num_samples_default = Inr free"
      by (cases "is_collision_free_line (?xs ! i) (?xs ! j) walls num_samples_default")
        (simp_all add: ij Let_def)
    show ?thesis
    proof (cases free)
      case True
      let ?new = "take (i + 1) ?xs @ drop j ?xs"
      from Cons.prems(1) False have run:
        "smooth_loop_store walls rs (h @ [?new]) (length h) = Inr (h', r)"
        by (simp add: ij free True Let_def alloc_def)
      have "length h < length (h @ [?new])" by simp
      from Cons.IH[OF run this] have ih:
        "smooth_loop walls rs ?new = Inr (h' ! r)" "length h \<le> r" "r < length h'"
        "take (Suc (length h)) h' = h @ [?new]"
        by simp_all
      have "take (length h) (take (Suc (length h)) h') = take (length h) (h @ [?new])"
        using ih(4) by simp
      then have "take (length h) h' = h" by simp
      moreover have "smooth_loop walls (x # rs) ?xs = Inr (h' ! r)"
        using False ih(1) by (simp add: ij free True Let_def)
      ultimately show ?thesis using ih(2,3) Cons.prems(2) by simp
    next
      case f: False
      from Cons.prems(1) False have run: "smooth_loop_store walls rs h sp = Inr (h', r)"
        by (simp add: ij free f Let_def)
      from Cons.IH[OF run Cons.prems(2)] False show ?thesis
        by (simp add: ij free f Let_def)
    qed
  qed
qed

lemma smooth_loop_store_total:
  "wf_walls walls \<Longrightarrow> \<exists>res. smooth_loop_store walls rs h sp = Inr res"
proof (induction rs arbitrary: h sp)
  case Nil
  then show ?case by simp
next
  case (Cons x rs)
  let ?xs = "h ! sp"
  show ?case
  proof (cases "length ?xs \<le> 2")
    case True
    then show ?thesis by simp
  next
    case False
    obtain i j where ij: "random_sample2 (length ?xs) x = (i, j)"
      by (cases "random_sample2 (length ?xs) x")
    from is_collision_free_line_total[OF Cons.prems] obtain b where
      b: "is_collision_free_line (?xs ! i) (?xs ! j) walls num_samples_default = Inr b" by blast
    show ?thesis using False Cons.IH[OF Cons.prems] by (simp add: ij b Let_def)
  qed
qed

section \<open>Evaluation on the scenario of the main program\<close>

lemma line_loop_all_free:
  "(\<And>t. t \<in> set ts \<Longrightarrow>
      is_collision_free (vadd (vscale p1 (1 - t)) (vscale p2 t)) walls safety_margin_default = Inr True)
   \<Longrightarrow> line_loop p1 p2 walls ts = Inr True"
  by (induction ts) simp_all

lemma linspace01_range: "t \<in> set (linspace01 n) \<Longrightarrow> 0 \<le> t \<and> t \<le> 1"
  by (cases "n = 0") (auto simp add: linspace01_def divide_le_eq)

lemma wf_walls_main: "wf_walls walls_main"
  by (simp add: wf_walls_def walls_main_def)

text \<open>Left of the wall and its margin, every point within the bounds is free.\<close>

lemma walls_main_free:
  assumes "- 0.5 \<le> x" "x < 0.4" "- 0.4 \<le> y" "y \<le> 0.4"
  shows "is_collision_free (x, y) walls_main safety_margin_default = Inr True"
  using assms
  by (simp add: is_collision_free_def walls_main_def extremes_def py_min_def py_max_def
      safety_margin_default_def)

lemma line_main:
  assumes "0 \<le> a" "a < 0.4" "0 \<le> b" "b < 0.4"
  shows "is_collision_free_line (a, 0) (b, 0) walls_main num_samples_default = Inr True"
  unfolding is_collision_free_line_def
proof (rule line_loop_all_free)
  fix t
  assume "t \<in> set (linspace01 num_samples_default)"
  then have t: "0 \<le> t" "t \<le> 1" using linspace01_range by blast+
  have 1: "0 \<le> a * (1 - t) + b * t" using t assms by simp
  have "a * (1 - t) + b * t \<le> max a b * (1 - t) + max a b * t"
    using t by (intro add_mono mult_right_mono) simp_all
  also have "\<dots> = max a b" by (simp add: algebra_simps)
  finally have 2: "a * (1 - t) + b * t < 0.4" using assms by simp
  show "is_collision_free (vadd (vscale (a, 0) (1 - t)) (vscale (b, 0) t)) walls_main
      safety_margin_default = Inr True"
    unfolding vadd_def vscale_def using 1 2 by (simp add: walls_main_free)
qed

lemma smooth_loop_accept:
  assumes "2 < length sp" "random_sample2 (length sp) r = (i, j)"
    "is_collision_free_line (sp ! i) (sp ! j) walls num_samples_default = Inr True"
  shows "smooth_loop walls (r # rs) sp = smooth_loop walls rs (take (i + 1) sp @ drop j sp)"
  using assms by (simp add: Let_def)

lemma smooth_loop_store_accept:
  assumes "2 < length (h ! sp)" "random_sample2 (length (h ! sp)) r = (i, j)"
    "is_collision_free_line (h ! sp ! i) (h ! sp ! j) walls num_samples_default = Inr True"
  shows "smooth_loop_store walls (r # rs) h sp
    = smooth_loop_store walls rs (h @ [take (i + 1) (h ! sp) @ drop j (h ! sp)]) (length h)"
  using assms by (simp add: Let_def alloc_def)

lemma smooth_loop_store_short:
  "length (h ! sp) \<le> 2 \<Longrightarrow> smooth_loop_store walls rs h sp = Inr (h, sp)"
  by (cases rs) simp_all

lemma draws_unfold:
  "map (\<lambda>k. (0::nat, 1::nat)) [0..<50] = (0, 1) # map (\<lambda>k. (0, 1)) [1..<50]"
  by (simp add: upt_conv_Cons)

lemma smooth_example:
  "smooth_path [(0, 0), (0.1, 0), (0.2, 0)] walls_main 50 (\<lambda>k. (0, 1)) = Inr [(0, 0), (0.2, 0)]"
proof -
  let ?sp = "[(0, 0), (0.1, 0), (0.2, 0)] :: pos list"
  have s: "random_sample2 (length ?sp) (0, 1) = (0, 2)" by (simp add: random_sample2_def)
  have l: "is_collision_free_line (?sp ! 0) (?sp ! 2) walls_main num_samples_default = Inr True"
    using line_main[of 0 "0.2"] by simp
  have "smooth_loop walls_main ((0, 1) # map (\<lambda>k. (0, 1)) [1..<50]) ?sp
      = smooth_loop walls_main (map (\<lambda>k. (0, 1)) [1..<50]) (take (0 + 1) ?sp @ drop 2 ?sp)"
    by (rule smooth_loop_accept[OF _ s l]) simp
  also have "\<dots> = Inr [(0, 0), (0.2, 0)]"
    by (simp add: smooth_loop_short)
  finally show ?thesis
    unfolding smooth_path_def draws_unfold .
qed

lemma smooth_store_example:
  "smooth_path_store [[(0, 0), (0.1, 0), (0.2, 0)]] 0 walls_main 50 (\<lambda>k. (0, 1))
   = Inr ([[(0, 0), (0.1, 0), (0.2, 0)], [(0, 0), (0.1, 0), (0.2, 0)], [(0, 0), (0.2, 0)]], 2)"
proof -
  let ?sp = "[(0, 0), (0.1, 0), (0.2, 0)] :: pos list"
  let ?h = "[?sp, ?sp]"
  have s: "random_sample2 (length (?h ! 1)) (0, 1) = (0, 2)" by (simp add: random_sample2_def)
  have l: "is_collision_free_line (?h ! 1 ! 0) (?h ! 1 ! 2) walls_main num_samples_default = Inr True"
    using line_main[of 0 "0.2"] by simp
  have "smooth_path_store [?sp] 0 walls_main 50 (\<lambda>k. (0, 1))
      = smooth_loop_store walls_main ((0, 1) # map (\<lambda>k. (0, 1)) [1..<50]) ?h 1"
    unfolding smooth_path_store_def draws_unfold alloc_def Let_def
    by (simp del: smooth_loop_store.simps)
  also have "\<dots> = smooth_loop_store walls_main (map (\<lambda>k. (0, 1)) [1..<50])
          (?h @ [take (0 + 1) (?h ! 1) @ drop 2 (?h ! 1)]) (length ?h)"
    by (rule smooth_loop_store_accept[OF _ s l]) simp
  also have "\<dots> = Inr ([?sp, ?sp, [(0, 0), (0.2, 0)]], 2)"
    by (simp add: smooth_loop_store_short)
  finally show ?thesis .
qed

text \<open>
  C2. For a path of at least one waypoint, every sequence that \<open>smooth_path\<close> returns
  is non-empty, has the first and the last waypoint of the input and is no longer than the
  input; and \<open>smooth_path\<close> does return a sequence for every obstacle set whose
  obstacles have corner points.
\<close>

theorem smooth_path_endpoints:
  assumes "path \<noteq> []"
  shows "(wf_walls walls \<longrightarrow> (\<exists>out. smooth_path path walls max_attempts rnd = Inr out))
    \<and> (\<forall>out. smooth_path path walls max_attempts rnd = Inr out \<longrightarrow>
          out \<noteq> [] \<and> hd out = hd path \<and> last out = last path
          \<and> length out \<le> length path)"
proof (intro conjI impI allI)
  assume "wf_walls walls"
  then show "\<exists>out. smooth_path path walls max_attempts rnd = Inr out"
    unfolding smooth_path_def by (rule smooth_loop_total)
next
  fix out
  assume "smooth_path path walls max_attempts rnd = Inr out"
  then have run: "smooth_loop walls (map rnd [0..<max_attempts]) path = Inr out"
    by (simp add: smooth_path_def)
  have "out \<noteq> [] \<and> hd out = hd path \<and> last out = last path \<and> length out \<le> length path"
  proof (rule smooth_loop_invariant[where
        Q = "\<lambda>xs. xs \<noteq> [] \<and> hd xs = hd path \<and> last xs = last path \<and> length xs \<le> length path",
        OF run])
    show "path \<noteq> [] \<and> hd path = hd path \<and> last path = last path \<and> length path \<le> length path"
      using assms by simp
  next
    fix xs :: "pos list" and i j
    assume "xs \<noteq> [] \<and> hd xs = hd path \<and> last xs = last path \<and> length xs \<le> length path"
      and "i < j" "j < length xs"
    then show "take (i + 1) xs @ drop j xs \<noteq> [] \<and> hd (take (i + 1) xs @ drop j xs) = hd path
        \<and> last (take (i + 1) xs @ drop j xs) = last path
        \<and> length (take (i + 1) xs @ drop j xs) \<le> length path"
      using splice_ends[of i j xs] by (metis le_trans)
  qed
  then show "out \<noteq> []" "hd out = hd path" "last out = last path"
    "length out \<le> length path"
    by simp_all
qed

theorem smooth_path_endpoints_witness:
  "[(0, 0), (0.1, 0), (0.2, 0)] \<noteq> ([] :: pos list)
   \<and> wf_walls walls_main
   \<and> smooth_path [(0, 0), (0.1, 0), (0.2, 0)] walls_main 50 (\<lambda>k. (0, 1)) = Inr [(0, 0), (0.2, 0)]
   \<and> [(0, 0), (0.2, 0)] \<noteq> ([] :: pos list)
   \<and> hd [(0, 0), (0.2, 0) :: pos] = hd [(0, 0), (0.1, 0), (0.2, 0)]
   \<and> last [(0, 0), (0.2, 0) :: pos] = last [(0, 0), (0.1, 0), (0.2, 0)]
   \<and> length [(0, 0), (0.2, 0) :: pos] \<le> length [(0, 0), (0.1, 0), (0.2, 0) :: pos]"
  using smooth_path_endpoints[of "[(0, 0), (0.1, 0), (0.2, 0)]" walls_main 50 "\<lambda>k. (0, 1)"]
    smooth_example wf_walls_main
  by simp

text \<open>
  C6. When every segment between consecutive waypoints of the input passes
  \<open>is_collision_free_line\<close>, \<open>smooth_path\<close> returns a sequence, and every segment
  between consecutive waypoints of that sequence passes \<open>is_collision_free_line\<close>.
\<close>

theorem smooth_path_segments_free:
  assumes "successively (\<lambda>a b. is_collision_free_line a b walls num_samples_default = Inr True) path"
  shows "\<exists>out. smooth_path path walls max_attempts rnd = Inr out
    \<and> successively (\<lambda>a b. is_collision_free_line a b walls num_samples_default = Inr True) out"
proof -
  let ?P = "\<lambda>a b. is_collision_free_line a b walls num_samples_default = Inr True"
  have "\<exists>out. smooth_loop walls (map rnd [0..<max_attempts]) path = Inr out"
  proof (cases "length path \<le> 2")
    case True
    then show ?thesis by (simp add: smooth_loop_short)
  next
    case False
    then obtain a b rest where "path = a # b # rest"
      by (cases path; cases "tl path") auto
    with assms have "?P a b" by simp
    then have "wf_walls walls" by (rule is_collision_free_line_True_wf)
    then show ?thesis by (rule smooth_loop_total)
  qed
  then obtain out where run: "smooth_loop walls (map rnd [0..<max_attempts]) path = Inr out"
    by blast
  have "successively ?P out"
  proof (rule smooth_loop_invariant[where Q = "successively ?P", OF run assms])
    fix xs :: "pos list" and i j
    assume "successively ?P xs" "i < j" "j < length xs"
      "is_collision_free_line (xs ! i) (xs ! j) walls num_samples_default = Inr True"
    then show "successively ?P (take (i + 1) xs @ drop j xs)"
      using splice_successively[of i j xs ?P] by simp
  qed
  with run show ?thesis by (simp add: smooth_path_def)
qed

theorem smooth_path_segments_free_witness:
  "successively (\<lambda>a b. is_collision_free_line a b walls_main num_samples_default = Inr True)
     [(0, 0), (0.1, 0), (0.2, 0)]
   \<and> smooth_path [(0, 0), (0.1, 0), (0.2, 0)] walls_main 50 (\<lambda>k. (0, 1)) = Inr [(0, 0), (0.2, 0)]
   \<and> successively (\<lambda>a b. is_collision_free_line a b walls_main num_samples_default = Inr True)
     [(0, 0), (0.2, 0)]"
proof -
  have h: "successively (\<lambda>a b. is_collision_free_line a b walls_main num_samples_default = Inr True)
     [(0, 0), (0.1, 0), (0.2, 0)]"
    using line_main[of 0 "0.1"] line_main[of "0.1" "0.2"] by simp
  from smooth_path_segments_free[OF h, of 50 "\<lambda>k. (0, 1)"] smooth_example h
  show ?thesis by simp
qed

text \<open>
  C10. Every sequence that \<open>smooth_path\<close> returns is a subsequence of the input, in
  the order of the input. On list objects: \<open>smooth_path\<close> returns a new object that
  holds this sequence, the list object of the caller and every other object of the store
  are as they were, and \<open>smooth_path\<close> does return for every obstacle set whose
  obstacles have corner points.
\<close>

theorem smooth_path_subsequence:
  assumes "path < length h"
  shows "(\<forall>out. smooth_path p walls max_attempts rnd = Inr out \<longrightarrow> subseq out p)
    \<and> (wf_walls walls \<longrightarrow> (\<exists>res. smooth_path_store h path walls max_attempts rnd = Inr res))
    \<and> (\<forall>h' r. smooth_path_store h path walls max_attempts rnd = Inr (h', r) \<longrightarrow>
          smooth_path (h ! path) walls max_attempts rnd = Inr (h' ! r)
          \<and> subseq (h' ! r) (h ! path)
          \<and> take (length h) h' = h \<and> h' ! path = h ! path
          \<and> length h \<le> r \<and> r < length h')"
proof (intro conjI impI allI)
  fix out
  assume "smooth_path p walls max_attempts rnd = Inr out"
  then show "subseq out p" by (simp add: smooth_path_def smooth_loop_subseq)
next
  assume "wf_walls walls"
  then show "\<exists>res. smooth_path_store h path walls max_attempts rnd = Inr res"
    unfolding smooth_path_store_def Let_def by (rule smooth_loop_store_total)
next
  fix h' r
  assume "smooth_path_store h path walls max_attempts rnd = Inr (h', r)"
  then have run: "smooth_loop_store walls (map rnd [0..<max_attempts]) (h @ [h ! path]) (length h)
      = Inr (h', r)"
    by (simp add: smooth_path_store_def alloc_def Let_def)
  have "length h < length (h @ [h ! path])" by simp
  from smooth_loop_store_sound[OF run this] have s:
    "smooth_loop walls (map rnd [0..<max_attempts]) (h ! path) = Inr (h' ! r)"
    "length h \<le> r" "r < length h'" "take (Suc (length h)) h' = h @ [h ! path]"
    by simp_all
  have "take (length h) (take (Suc (length h)) h') = take (length h) (h @ [h ! path])"
    using s(4) by simp
  then have t: "take (length h) h' = h" by simp
  show "smooth_path (h ! path) walls max_attempts rnd = Inr (h' ! r)"
    using s(1) by (simp add: smooth_path_def)
  show "subseq (h' ! r) (h ! path)" using s(1) by (rule smooth_loop_subseq)
  show "take (length h) h' = h" by (rule t)
  show "h' ! path = h ! path" using assms t by (metis nth_take)
  show "length h \<le> r" by (rule s(2))
  show "r < length h'" by (rule s(3))
qed

theorem smooth_path_subsequence_witness:
  "(0 :: nat) < length [[(0, 0), (0.1, 0), (0.2, 0) :: pos]]
   \<and> wf_walls walls_main
   \<and> smooth_path [(0, 0), (0.1, 0), (0.2, 0)] walls_main 50 (\<lambda>k. (0, 1)) = Inr [(0, 0), (0.2, 0)]
   \<and> subseq [(0, 0), (0.2, 0) :: pos] [(0, 0), (0.1, 0), (0.2, 0)]
   \<and> smooth_path_store [[(0, 0), (0.1, 0), (0.2, 0)]] 0 walls_main 50 (\<lambda>k. (0, 1))
      = Inr ([[(0, 0), (0.1, 0), (0.2, 0)], [(0, 0), (0.1, 0), (0.2, 0)], [(0, 0), (0.2, 0)]], 2)
   \<and> [[(0, 0), (0.1, 0), (0.2, 0)], [(0, 0), (0.1, 0), (0.2, 0)], [(0, 0), (0.2, 0) :: pos]] ! 0
      = [(0, 0), (0.1, 0), (0.2, 0)]"
  using smooth_path_subsequence[of 0 "[[(0, 0), (0.1, 0), (0.2, 0)]]"
      "[(0, 0), (0.1, 0), (0.2, 0)]" walls_main 50 "\<lambda>k. (0, 1)"]
    smooth_example smooth_store_example wf_walls_main
  by simp

section \<open>Properties of the planner\<close>

lemma norm2_nonneg: "0 \<le> norm2 v"
  by (simp add: norm2_def)

lemma norm2_eq_0_iff: "norm2 v = 0 \<longleftrightarrow> v = (0, 0)"
  by (cases v) (simp add: norm2_def sum_power2_eq_zero_iff)


lemma norm2_pow2: "(norm2 v)\<^sup>2 = (fst v)\<^sup>2 + (snd v)\<^sup>2"
  by (simp add: norm2_def)

lemma norm2_normalized:
  assumes "norm2 d \<noteq> 0"
  shows "norm2 (fst d / norm2 d, snd d / norm2 d) = 1"
proof -
  have "(fst d / norm2 d)\<^sup>2 + (snd d / norm2 d)\<^sup>2 = ((fst d)\<^sup>2 + (snd d)\<^sup>2) / (norm2 d)\<^sup>2"
    by (simp add: power_divide add_divide_distrib)
  also have "\<dots> = 1" using assms by (simp add: norm2_pow2[symmetric])
  finally show ?thesis by (simp add: norm2_def)
qed

lemma norm2_vscale: "norm2 (vscale u c) = \<bar>c\<bar> * norm2 u"
proof -
  have "(fst u * c)\<^sup>2 + (snd u * c)\<^sup>2 = c\<^sup>2 * ((fst u)\<^sup>2 + (snd u)\<^sup>2)"
    by (simp add: power_mult_distrib algebra_simps)
  then show ?thesis
    by (simp add: norm2_def vscale_def real_sqrt_mult)
qed





lemma nearest_loop_mem: "nearest_loop best ns xrand \<in> set (best # ns)"
  by (induction ns arbitrary: best) (auto split: if_splits)

lemma nearest_mem:
  assumes "nearest T xrand = Inr xnear"
  shows "xnear \<in> set T"
proof (cases T)
  case Nil
  with assms show ?thesis by (simp add: nearest_def)
next
  case (Cons n ns)
  with assms have "xnear = nearest_loop n ns xrand" by (simp add: nearest_def)
  with Cons show ?thesis using nearest_loop_mem[of n ns xrand] by simp
qed

lemma nearest_total: "T \<noteq> [] \<Longrightarrow> \<exists>xnear. nearest T xrand = Inr xnear"
  by (cases T) (simp_all add: nearest_def)

lemma chain_nonempty: "chain n \<noteq> []"
  by (induction n rule: chain.induct) simp_all


text \<open>One iteration of the loop, in the cases of its outcome.\<close>

lemma rrt_loop_Cons_cases:
  assumes "rrt_loop goal_area walls (r # rs) T = Inr out"
  obtains (rejected) xnear ue
    where "nearest T (sample_random_position r) = Inr xnear"
      and "choose_control (position xnear) (sample_random_position r) = Inr ue"
      and "is_collision_free (simulate (position xnear) ue dt_default) walls safety_margin_default
            = Inr False"
      and "rrt_loop goal_area walls rs T = Inr out"
  | (reached) xnear ue
    where "nearest T (sample_random_position r) = Inr xnear"
      and "choose_control (position xnear) (sample_random_position r) = Inr ue"
      and "is_collision_free (simulate (position xnear) ue dt_default) walls safety_margin_default
            = Inr True"
      and "is_in_goal_area (simulate (position xnear) ue dt_default) goal_area = Inr True"
      and "out = (T @ [Node (simulate (position xnear) ue dt_default) (Some xnear) (Some ue)],
                  Some (Node (simulate (position xnear) ue dt_default) (Some xnear) (Some ue)))"
  | (grown) xnear ue
    where "nearest T (sample_random_position r) = Inr xnear"
      and "choose_control (position xnear) (sample_random_position r) = Inr ue"
      and "is_collision_free (simulate (position xnear) ue dt_default) walls safety_margin_default
            = Inr True"
      and "is_in_goal_area (simulate (position xnear) ue dt_default) goal_area = Inr False"
      and "rrt_loop goal_area walls rs
             (T @ [Node (simulate (position xnear) ue dt_default) (Some xnear) (Some ue)]) = Inr out"
proof -
  let ?xrand = "sample_random_position r"
  from assms obtain xnear where n: "nearest T ?xrand = Inr xnear"
    by (cases "nearest T ?xrand") (simp_all add: Let_def)
  from assms n obtain ue where c: "choose_control (position xnear) ?xrand = Inr ue"
    by (cases "choose_control (position xnear) ?xrand") (simp_all add: Let_def)
  let ?xe = "simulate (position xnear) ue dt_default"
  from assms n c obtain free where f: "is_collision_free ?xe walls safety_margin_default = Inr free"
    by (cases "is_collision_free ?xe walls safety_margin_default") (simp_all add: Let_def)
  show thesis
  proof (cases free)
    case False
    with assms n c f have "rrt_loop goal_area walls rs T = Inr out" by (simp add: Let_def)
    with n c f False show thesis by (intro rejected[of xnear ue]) simp_all
  next
    case True
    from assms n c f True obtain g where g: "is_in_goal_area ?xe goal_area = Inr g"
      by (cases "is_in_goal_area ?xe goal_area") (simp_all add: Let_def)
    show thesis
    proof (cases g)
      case gt: True
      with assms n c f True g have
        "out = (T @ [Node ?xe (Some xnear) (Some ue)], Some (Node ?xe (Some xnear) (Some ue)))"
        by (simp add: Let_def)
      with n c f True g gt show thesis by (intro reached[of xnear ue]) simp_all
    next
      case gf: False
      with assms n c f True g have
        "rrt_loop goal_area walls rs (T @ [Node ?xe (Some xnear) (Some ue)]) = Inr out"
        by (simp add: Let_def)
      with n c f True g gf show thesis by (intro grown[of xnear ue]) simp_all
    qed
  qed
qed


lemma rrt_loop_nodes_aux:
  assumes step: "\<And>p r u. Q p \<Longrightarrow> r \<in> S \<Longrightarrow>
           choose_control (position p) (sample_random_position r) = Inr u \<Longrightarrow>
           is_collision_free (simulate (position p) u dt_default) walls safety_margin_default
             = Inr True \<Longrightarrow>
           Q (Node (simulate (position p) u dt_default) (Some p) (Some u))"
  shows "set rs \<subseteq> S \<Longrightarrow> rrt_loop goal_area walls rs T = Inr (T', res) \<Longrightarrow>
    \<forall>n \<in> set T. Q n \<Longrightarrow> \<forall>n \<in> set T'. Q n"
proof (induction rs arbitrary: T)
  case Nil
  then show ?case by simp
next
  case (Cons r rs)
  from Cons.prems(1) have r: "r \<in> S" and rs: "set rs \<subseteq> S" by simp_all
  from Cons.prems(2) show ?case
  proof (cases rule: rrt_loop_Cons_cases)
    case (rejected xnear ue)
    from rs rejected(4) Cons.prems(3) show ?thesis by (rule Cons.IH)
  next
    case (reached xnear ue)
    from nearest_mem[OF reached(1)] Cons.prems(3) have "Q xnear" by blast
    from step[OF this r reached(2) reached(3)]
    have "Q (Node (simulate (position xnear) ue dt_default) (Some xnear) (Some ue))" .
    moreover from reached(5) have
      "T' = T @ [Node (simulate (position xnear) ue dt_default) (Some xnear) (Some ue)]"
      by simp
    ultimately show ?thesis using Cons.prems(3) by simp
  next
    case (grown xnear ue)
    from nearest_mem[OF grown(1)] Cons.prems(3) have "Q xnear" by blast
    from step[OF this r grown(2) grown(3)]
    have "Q (Node (simulate (position xnear) ue dt_default) (Some xnear) (Some ue))" .
    with Cons.prems(3) have
      "\<forall>n \<in> set (T @ [Node (simulate (position xnear) ue dt_default) (Some xnear) (Some ue)]). Q n"
      by simp
    with rs grown(5) show ?thesis by (rule Cons.IH)
  qed
qed

text \<open>
  A property of nodes that holds of every node of the tree given to the loop, and of
  every candidate accepted from a node that has it, holds of every node of the final tree.
\<close>

lemma rrt_loop_nodes:
  assumes "rrt_loop goal_area walls rs T = Inr (T', res)"
    and "\<forall>n \<in> set T. Q n"
    and "\<And>p r u. Q p \<Longrightarrow> r \<in> set rs \<Longrightarrow>
           choose_control (position p) (sample_random_position r) = Inr u \<Longrightarrow>
           is_collision_free (simulate (position p) u dt_default) walls safety_margin_default
             = Inr True \<Longrightarrow>
           Q (Node (simulate (position p) u dt_default) (Some p) (Some u))"
  shows "\<forall>n \<in> set T'. Q n"
  by (rule rrt_loop_nodes_aux[where S = "set rs" and Q = Q, OF assms(3) _ assms(1) assms(2)])
    simp_all

lemma rrt_loop_result:
  assumes "rrt_loop goal_area walls rs T = Inr (T', res)"
  shows "\<exists>new. T' = T @ new
    \<and> (\<forall>n \<in> set new. parent n \<noteq> None)
    \<and> (case res of
         None \<Rightarrow> \<forall>n \<in> set new. is_in_goal_area (position n) goal_area = Inr False
       | Some g \<Rightarrow> new \<noteq> [] \<and> g = last new
           \<and> is_in_goal_area (position g) goal_area = Inr True
           \<and> (\<forall>n \<in> set (butlast new). is_in_goal_area (position n) goal_area = Inr False))"
  using assms
proof (induction rs arbitrary: T)
  case Nil
  then show ?case by auto
next
  case (Cons r rs)
  from Cons.prems show ?case
  proof (cases rule: rrt_loop_Cons_cases)
    case (rejected xnear ue)
    from Cons.IH[OF rejected(4)] show ?thesis .
  next
    case (reached xnear ue)
    let ?n = "Node (simulate (position xnear) ue dt_default) (Some xnear) (Some ue)"
    from reached(5) have "T' = T @ [?n]" "res = Some ?n" by simp_all
    with reached(4) show ?thesis by (intro exI[of _ "[?n]"]) simp
  next
    case (grown xnear ue)
    let ?n = "Node (simulate (position xnear) ue dt_default) (Some xnear) (Some ue)"
    from Cons.IH[OF grown(5)] obtain new where new: "T' = (T @ [?n]) @ new"
      "\<forall>n \<in> set new. parent n \<noteq> None"
      "case res of
         None \<Rightarrow> \<forall>n \<in> set new. is_in_goal_area (position n) goal_area = Inr False
       | Some g \<Rightarrow> new \<noteq> [] \<and> g = last new
           \<and> is_in_goal_area (position g) goal_area = Inr True
           \<and> (\<forall>n \<in> set (butlast new). is_in_goal_area (position n) goal_area = Inr False)"
      by blast
    show ?thesis
    proof (intro exI[of _ "?n # new"] conjI)
      show "T' = T @ ?n # new" using new(1) by simp
      show "\<forall>n \<in> set (?n # new). parent n \<noteq> None" using new(2) by simp
      show "case res of
         None \<Rightarrow> \<forall>n \<in> set (?n # new). is_in_goal_area (position n) goal_area = Inr False
       | Some g \<Rightarrow> ?n # new \<noteq> [] \<and> g = last (?n # new)
           \<and> is_in_goal_area (position g) goal_area = Inr True
           \<and> (\<forall>n \<in> set (butlast (?n # new)). is_in_goal_area (position n) goal_area = Inr False)"
        using new(3) grown(4) by (cases res) auto
    qed
  qed
qed

lemma last_chain_Some: "last (chain (Node xe (Some p) c)) = last (chain p)"
  by (simp add: chain_nonempty)

lemma butlast_chain_Some: "butlast (chain (Node xe (Some p) c)) = xe # butlast (chain p)"
  by (simp add: chain_nonempty)

lemma rrt_tree_root:
  assumes "rrt_tree start_pos goal_area walls N rnd = Inr (T, res)"
  shows "\<exists>new. T = Node start_pos None None # new
    \<and> (\<forall>n \<in> set new. parent n \<noteq> None)
    \<and> (case res of
         None \<Rightarrow> \<forall>n \<in> set new. is_in_goal_area (position n) goal_area = Inr False
       | Some g \<Rightarrow> new \<noteq> [] \<and> g = last new
           \<and> is_in_goal_area (position g) goal_area = Inr True
           \<and> (\<forall>n \<in> set (butlast new). is_in_goal_area (position n) goal_area = Inr False))"
  using rrt_loop_result[OF assms[unfolded rrt_tree_def]] by simp

lemma rrt_tree_nodes:
  assumes "rrt_tree start_pos goal_area walls N rnd = Inr (T, res)"
    and "Q (Node start_pos None None)"
    and "\<And>p r u. Q p \<Longrightarrow> r \<in> rnd ` {..<N} \<Longrightarrow>
           choose_control (position p) (sample_random_position r) = Inr u \<Longrightarrow>
           is_collision_free (simulate (position p) u dt_default) walls safety_margin_default
             = Inr True \<Longrightarrow>
           Q (Node (simulate (position p) u dt_default) (Some p) (Some u))"
  shows "\<forall>n \<in> set T. Q n"
proof (rule rrt_loop_nodes[where Q = Q, OF assms(1)[unfolded rrt_tree_def]])
  show "\<forall>n \<in> set [Node start_pos None None]. Q n" using assms(2) by simp
next
  fix p r u
  assume "Q p" "r \<in> set (map rnd [0..<N])"
    "choose_control (position p) (sample_random_position r) = Inr u"
    "is_collision_free (simulate (position p) u dt_default) walls safety_margin_default = Inr True"
  moreover from this(2) have "r \<in> rnd ` {..<N}" by (auto simp add: lessThan_atLeast0)
  ultimately show "Q (Node (simulate (position p) u dt_default) (Some p) (Some u))"
    using assms(3) by blast
qed

lemma kinodynamic_rrt_Some:
  assumes "kinodynamic_rrt start_pos goal_area walls N rnd = Inr (Some path)"
  obtains T n where "rrt_tree start_pos goal_area walls N rnd = Inr (T, Some n)"
    and "path = construct_path n"
proof -
  from assms obtain T res where t: "rrt_tree start_pos goal_area walls N rnd = Inr (T, res)"
    by (cases "rrt_tree start_pos goal_area walls N rnd") (auto simp add: kinodynamic_rrt_def)
  with assms obtain n where "res = Some n" "path = construct_path n"
    by (cases res) (auto simp add: kinodynamic_rrt_def)
  with t that show thesis by blast
qed

lemma rrt_loop_reached:
  assumes "nearest T (sample_random_position r) = Inr xnear"
    and "choose_control (position xnear) (sample_random_position r) = Inr ue"
    and "is_collision_free (simulate (position xnear) ue dt_default) walls safety_margin_default
          = Inr True"
    and "is_in_goal_area (simulate (position xnear) ue dt_default) goal_area = Inr True"
  shows "rrt_loop goal_area walls (r # rs) T
    = Inr (T @ [Node (simulate (position xnear) ue dt_default) (Some xnear) (Some ue)],
           Some (Node (simulate (position xnear) ue dt_default) (Some xnear) (Some ue)))"
  using assms by (simp add: Let_def)

lemma rrt_loop_grown:
  assumes "nearest T (sample_random_position r) = Inr xnear"
    and "choose_control (position xnear) (sample_random_position r) = Inr ue"
    and "is_collision_free (simulate (position xnear) ue dt_default) walls safety_margin_default
          = Inr True"
    and "is_in_goal_area (simulate (position xnear) ue dt_default) goal_area = Inr False"
  shows "rrt_loop goal_area walls (r # rs) T
    = rrt_loop goal_area walls rs
        (T @ [Node (simulate (position xnear) ue dt_default) (Some xnear) (Some ue)])"
  using assms by (simp add: Let_def)

lemma draws_unfold_pos: "0 < N \<Longrightarrow> map rnd [0..<N] = rnd 0 # map rnd [1..<N]"
  by (simp add: upt_conv_Cons)

lemma draws_unfold_1000: "map rnd [0..<1000] = rnd 0 # map rnd [1..<1000]"
  by (rule draws_unfold_pos) simp

lemma sample_east: "sample_random_position (0.75, 0.5) = (1, 0)"
  by (simp add: sample_random_position_def uniform_def)

lemma choose_control_east: "choose_control (0, 0) (1, 0) = Inr (1, 0)"
  by (simp add: choose_control_def vdiv_def vsub_def norm2_def Let_def)

lemma simulate_east: "simulate (0, 0) (1, 0) dt_default = (0.05, 0)"
  by (simp add: simulate_def vadd_def vscale_def dt_default_def)

text \<open>
  A run that reaches a goal area next to the start in its first iteration, and a run of
  one iteration towards the goal area of the main program, which it does not reach.
\<close>

lemma rrt_tree_near:
  "rrt_tree (0, 0) [(0, - 0.1), (0.1, 0.1)] walls_main 1000 (\<lambda>k. (0.75, 0.5))
   = Inr ([Node (0, 0) None None, Node (0.05, 0) (Some (Node (0, 0) None None)) (Some (1, 0))],
          Some (Node (0.05, 0) (Some (Node (0, 0) None None)) (Some (1, 0))))"
proof -
  let ?root = "Node (0, 0) None None"
  have n: "nearest [?root] (sample_random_position (0.75, 0.5)) = Inr ?root"
    by (simp add: nearest_def)
  have c: "choose_control (position ?root) (sample_random_position (0.75, 0.5)) = Inr (1, 0)"
    unfolding sample_east by (simp add: choose_control_east)
  have f: "is_collision_free (simulate (position ?root) (1, 0) dt_default) walls_main
      safety_margin_default = Inr True"
    by (simp add: simulate_east walls_main_free)
  have g: "is_in_goal_area (simulate (position ?root) (1, 0) dt_default) [(0, - 0.1), (0.1, 0.1)]
      = Inr True"
    by (simp add: simulate_east is_in_goal_area_def extremes_def py_min_def py_max_def)
  show ?thesis
    unfolding rrt_tree_def draws_unfold_1000
    using rrt_loop_reached[OF n c f g] by (simp add: simulate_east)
qed

lemma kinodynamic_rrt_near:
  "kinodynamic_rrt (0, 0) [(0, - 0.1), (0.1, 0.1)] walls_main 1000 (\<lambda>k. (0.75, 0.5))
   = Inr (Some [(0, 0), (0.05, 0)])"
  unfolding kinodynamic_rrt_def rrt_tree_near by (simp add: construct_path_def)

lemma rrt_tree_one:
  "rrt_tree (0, 0) goal_area_main walls_main 1 (\<lambda>k. (0.75, 0.5))
   = Inr ([Node (0, 0) None None, Node (0.05, 0) (Some (Node (0, 0) None None)) (Some (1, 0))],
          None)"
proof -
  let ?root = "Node (0, 0) None None"
  have n: "nearest [?root] (sample_random_position (0.75, 0.5)) = Inr ?root"
    by (simp add: nearest_def)
  have c: "choose_control (position ?root) (sample_random_position (0.75, 0.5)) = Inr (1, 0)"
    unfolding sample_east by (simp add: choose_control_east)
  have f: "is_collision_free (simulate (position ?root) (1, 0) dt_default) walls_main
      safety_margin_default = Inr True"
    by (simp add: simulate_east walls_main_free)
  have g: "is_in_goal_area (simulate (position ?root) (1, 0) dt_default) goal_area_main
      = Inr False"
    by (simp add: simulate_east is_in_goal_area_def goal_area_main_def extremes_def py_min_def
        py_max_def)
  show ?thesis
    unfolding rrt_tree_def
    using rrt_loop_grown[OF n c f g, of "[]"] by (simp add: simulate_east)
qed

lemma kinodynamic_rrt_one:
  "kinodynamic_rrt (0, 0) goal_area_main walls_main 1 (\<lambda>k. (0.75, 0.5)) = Inr None"
  unfolding kinodynamic_rrt_def rrt_tree_one by simp




lemma tl_rev_butlast: "tl (rev xs) = rev (butlast xs)"
  by (induction xs) auto

lemma nearest_single: "nearest [n] xrand = Inr n"
  by (simp add: nearest_def)


text \<open>
  A run from a start position left of the workspace, which reaches a goal area next to
  it in its first iteration.
\<close>

lemma sample_mid: "sample_random_position (0.49, 0.5) = (0.48, 0)"
  by (simp add: sample_random_position_def uniform_def)

lemma choose_control_out: "choose_control (- 0.52, 0) (0.48, 0) = Inr (1, 0)"
  by (simp add: choose_control_def vdiv_def vsub_def norm2_def Let_def)

lemma simulate_out: "simulate (- 0.52, 0) (1, 0) dt_default = (- 0.47, 0)"
  by (simp add: simulate_def vadd_def vscale_def dt_default_def)

lemma start_out_not_free:
  "is_collision_free (- 0.52, 0) walls_main safety_margin_default = Inr False"
  by (simp add: is_collision_free_def)

lemma rrt_tree_out:
  "rrt_tree (- 0.52, 0) [(- 0.5, - 0.1), (- 0.4, 0.1)] walls_main 1000 (\<lambda>k. (0.49, 0.5))
   = Inr ([Node (- 0.52, 0) None None,
           Node (- 0.47, 0) (Some (Node (- 0.52, 0) None None)) (Some (1, 0))],
          Some (Node (- 0.47, 0) (Some (Node (- 0.52, 0) None None)) (Some (1, 0))))"
proof -
  let ?root = "Node (- 0.52, 0) None None"
  have n: "nearest [?root] (sample_random_position (0.49, 0.5)) = Inr ?root"
    by (rule nearest_single)
  have c: "choose_control (position ?root) (sample_random_position (0.49, 0.5)) = Inr (1, 0)"
    unfolding sample_mid node.sel by (rule choose_control_out)
  have f: "is_collision_free (simulate (position ?root) (1, 0) dt_default) walls_main
      safety_margin_default = Inr True"
    unfolding node.sel simulate_out by (simp add: walls_main_free)
  have g: "is_in_goal_area (simulate (position ?root) (1, 0) dt_default)
      [(- 0.5, - 0.1), (- 0.4, 0.1)] = Inr True"
    unfolding node.sel simulate_out
    by (simp add: is_in_goal_area_def extremes_def py_min_def py_max_def)
  show ?thesis
    using rrt_loop_reached[OF n c f g]
    unfolding rrt_tree_def draws_unfold_1000 node.sel simulate_out by simp
qed

lemma kinodynamic_rrt_out:
  "kinodynamic_rrt (- 0.52, 0) [(- 0.5, - 0.1), (- 0.4, 0.1)] walls_main 1000 (\<lambda>k. (0.49, 0.5))
   = Inr (Some [(- 0.52, 0), (- 0.47, 0)])"
  unfolding kinodynamic_rrt_def rrt_tree_out by (simp add: construct_path_def)






text \<open>
  C1. The root of the tree is built from the start position without a test: a start
  position outside the workspace becomes the root of the tree and the first waypoint of
  the returned path, and \<open>is_collision_free\<close> is false for it.
\<close>

theorem rrt_root_not_checked:
  "rrt_tree (- 0.52, 0) [(- 0.5, - 0.1), (- 0.4, 0.1)] walls_main 1000 (\<lambda>k. (0.49, 0.5))
     = Inr ([Node (- 0.52, 0) None None,
             Node (- 0.47, 0) (Some (Node (- 0.52, 0) None None)) (Some (1, 0))],
            Some (Node (- 0.47, 0) (Some (Node (- 0.52, 0) None None)) (Some (1, 0))))
   \<and> kinodynamic_rrt (- 0.52, 0) [(- 0.5, - 0.1), (- 0.4, 0.1)] walls_main 1000
       (\<lambda>k. (0.49, 0.5))
     = Inr (Some [(- 0.52, 0), (- 0.47, 0)])
   \<and> position (Node (- 0.52, 0) None None) = (- 0.52, 0)
   \<and> is_collision_free (- 0.52, 0) walls_main safety_margin_default = Inr False"
  using rrt_tree_out kinodynamic_rrt_out start_out_not_free
  by (intro conjI) simp_all

text \<open>
  C1, amended. The tree starts with the root, a node at the start position, and
  \<open>is_collision_free\<close> holds at the position of every other node of the tree. A returned
  path starts with the start position, and \<open>is_collision_free\<close> holds at every waypoint
  after the first. When \<open>is_collision_free\<close> holds at the start position, it holds at every
  node of the tree and at every waypoint of a returned path.
\<close>

theorem rrt_nodes_collision_free:
  "(\<forall>T res. rrt_tree start_pos goal_area walls N rnd = Inr (T, res) \<longrightarrow>
      T \<noteq> [] \<and> hd T = Node start_pos None None
      \<and> (\<forall>n \<in> set (tl T).
            is_collision_free (position n) walls safety_margin_default = Inr True)
      \<and> (is_collision_free start_pos walls safety_margin_default = Inr True \<longrightarrow>
          (\<forall>n \<in> set T.
             is_collision_free (position n) walls safety_margin_default = Inr True)))
   \<and> (\<forall>path. kinodynamic_rrt start_pos goal_area walls N rnd = Inr (Some path) \<longrightarrow>
        path \<noteq> [] \<and> hd path = start_pos
        \<and> (\<forall>x \<in> set (tl path). is_collision_free x walls safety_margin_default = Inr True)
        \<and> (is_collision_free start_pos walls safety_margin_default = Inr True \<longrightarrow>
            (\<forall>x \<in> set path. is_collision_free x walls safety_margin_default = Inr True)))"
proof -
  let ?free = "\<lambda>x. is_collision_free x walls safety_margin_default = Inr True"
  have tree: "T \<noteq> [] \<and> hd T = Node start_pos None None
      \<and> (\<forall>n \<in> set (tl T). ?free (position n))
      \<and> (?free start_pos \<longrightarrow> (\<forall>n \<in> set T. ?free (position n)))"
    if t: "rrt_tree start_pos goal_area walls N rnd = Inr (T, res)" for T res
  proof -
    from rrt_tree_root[OF t] obtain new where new: "T = Node start_pos None None # new"
      "\<forall>n \<in> set new. parent n \<noteq> None"
      by blast
    have "\<forall>n \<in> set T. parent n \<noteq> None \<longrightarrow> ?free (position n)"
      by (rule rrt_tree_nodes[where Q = "\<lambda>n. parent n \<noteq> None \<longrightarrow> ?free (position n)", OF t])
        simp_all
    with new have "\<forall>n \<in> set (tl T). ?free (position n)" by simp
    with new show ?thesis by auto
  qed
  have path: "path \<noteq> [] \<and> hd path = start_pos
      \<and> (\<forall>x \<in> set (tl path). ?free x)
      \<and> (?free start_pos \<longrightarrow> (\<forall>x \<in> set path. ?free x))"
    if k: "kinodynamic_rrt start_pos goal_area walls N rnd = Inr (Some path)" for path
  proof -
    from k obtain T n where t: "rrt_tree start_pos goal_area walls N rnd = Inr (T, Some n)"
      and p: "path = construct_path n"
      by (rule kinodynamic_rrt_Some)
    from rrt_tree_root[OF t] have "n \<in> set T" by auto
    have "\<forall>m \<in> set T. last (chain m) = start_pos \<and> (\<forall>x \<in> set (butlast (chain m)). ?free x)"
      by (rule rrt_tree_nodes[where
            Q = "\<lambda>m. last (chain m) = start_pos \<and> (\<forall>x \<in> set (butlast (chain m)). ?free x)",
            OF t])
        (simp_all add: last_chain_Some butlast_chain_Some del: chain.simps, simp)
    with \<open>n \<in> set T\<close> have l: "last (chain n) = start_pos"
      and b: "\<forall>x \<in> set (butlast (chain n)). ?free x"
      by blast+
    have ne: "path \<noteq> []" using p by (simp add: construct_path_def chain_nonempty)
    have h: "hd path = start_pos"
      using p l by (simp add: construct_path_def hd_rev)
    have tlp: "set (tl path) = set (butlast (chain n))"
      using p by (simp add: construct_path_def tl_rev_butlast)
    have "set path = insert start_pos (set (butlast (chain n)))"
    proof -
      have "chain n = butlast (chain n) @ [last (chain n)]"
        by (simp add: chain_nonempty)
      then have "set (chain n) = insert (last (chain n)) (set (butlast (chain n)))"
        by (metis Un_insert_right append_Nil2 list.set(2) set_append set_empty2
            sup_bot.right_neutral list.simps(15))
      with p l show ?thesis by (simp add: construct_path_def)
    qed
    with ne h tlp b show ?thesis by simp
  qed
  from tree path show ?thesis by blast
qed

theorem rrt_nodes_collision_free_witness:
  "rrt_tree (0, 0) [(0, - 0.1), (0.1, 0.1)] walls_main 1000 (\<lambda>k. (0.75, 0.5))
     = Inr ([Node (0, 0) None None, Node (0.05, 0) (Some (Node (0, 0) None None)) (Some (1, 0))],
            Some (Node (0.05, 0) (Some (Node (0, 0) None None)) (Some (1, 0))))
   \<and> kinodynamic_rrt (0, 0) [(0, - 0.1), (0.1, 0.1)] walls_main 1000 (\<lambda>k. (0.75, 0.5))
     = Inr (Some [(0, 0), (0.05, 0)])
   \<and> is_collision_free (0, 0) walls_main safety_margin_default = Inr True
   \<and> is_collision_free (position (Node (0.05, 0) (Some (Node (0, 0) None None)) (Some (1, 0))))
       walls_main safety_margin_default = Inr True
   \<and> is_collision_free (0.05, 0) walls_main safety_margin_default = Inr True"
proof -
  let ?root = "Node (0, 0) None None"
  let ?n1 = "Node (0.05, 0) (Some ?root) (Some (1, 0))"
  note th = rrt_nodes_collision_free[where start_pos = "(0, 0)"
      and goal_area = "[(0, - 0.1), (0.1, 0.1)]" and walls = walls_main and N = 1000
      and rnd = "\<lambda>k. (0.75, 0.5)"]
  have s: "is_collision_free (0, 0) walls_main safety_margin_default = Inr True"
    by (simp add: walls_main_free)
  from th[THEN conjunct1] rrt_tree_near
  have "\<forall>n \<in> set (tl [?root, ?n1]).
      is_collision_free (position n) walls_main safety_margin_default = Inr True"
    by blast
  then have a: "is_collision_free (position ?n1) walls_main safety_margin_default = Inr True"
    by (rule bspec) simp
  from th[THEN conjunct2] kinodynamic_rrt_near
  have "\<forall>x \<in> set (tl [(0, 0), (0.05, 0)]).
      is_collision_free x walls_main safety_margin_default = Inr True"
    by blast
  then have b: "is_collision_free (0.05, 0) walls_main safety_margin_default = Inr True"
    by (rule bspec) simp
  from rrt_tree_near kinodynamic_rrt_near s a b show ?thesis
    by (intro conjI)
qed

section \<open>Properties of the trajectory follower\<close>

lemma desired_speed_of_cases:
  "desired_speed_of d = (if 1 \<le> d then 10 else max 1 (d * 10))"
  by (simp add: desired_speed_of_def slowdown_distance_def max_speed_def min_speed_def)

lemma desired_speed_of_range: "1 \<le> desired_speed_of d \<and> desired_speed_of d \<le> 10"
  by (simp add: desired_speed_of_cases)

lemma normalize_control_cases:
  "normalize_control v s
   = (if norm2 v = 0 then v else (fst v / norm2 v * s, snd v / norm2 v * s))"
  using norm2_nonneg[of v] by (simp add: normalize_control_def Let_def)

lemma norm2_normalize_control:
  assumes "v \<noteq> (0, 0)"
  shows "norm2 (normalize_control v s) = \<bar>s\<bar>"
proof -
  from assms have nz: "norm2 v \<noteq> 0" by (simp add: norm2_eq_0_iff)
  then have "normalize_control v s = vscale (fst v / norm2 v, snd v / norm2 v) s"
    by (simp add: normalize_control_cases vscale_def)
  then show ?thesis
    using norm2_normalized[OF nz] by (simp add: norm2_vscale)
qed

lemma compute_total:
  "compute pid x dt_control
   = Inr (kp pid * (setpoint pid - x) + ki pid * (integral pid + (setpoint pid - x) * dt_control)
          + kd pid * ((setpoint pid - x) - previous_error pid) / dt_control,
          pid\<lparr>previous_error := setpoint pid - x,
              integral := integral pid + (setpoint pid - x) * dt_control\<rparr>)"
  by (simp add: compute_def dt_control_def Let_def)

lemma tick_Some:
  assumes "tick sim start_pos end_pos st = Inr (Some st')"
  obtains cx cy px py deviation
  where "\<not> norm2 (vsub end_pos (xpos sim (data st))) < 0.05"
    and "compute (pid_x st) (fst (xpos sim (data st))) dt_control = Inr (cx, px)"
    and "compute (pid_y st) (snd (xpos sim (data st))) dt_control = Inr (cy, py)"
    and "deviation_of start_pos end_pos
          (xpos sim (mj_step sim (data st)
             (normalize_control (cx, cy)
                (desired_speed_of (norm2 (vsub end_pos (xpos sim (data st))))))))
         = Inr deviation"
    and "st' = st\<lparr>pid_x := px, pid_y := py,
           data := mj_step sim (data st)
             (normalize_control (cx, cy)
                (desired_speed_of (norm2 (vsub end_pos (xpos sim (data st)))))),
           ctrl_log := ctrl_log st @
             [normalize_control (cx, cy)
                (desired_speed_of (norm2 (vsub end_pos (xpos sim (data st)))))],
           deviation_data := deviation_data st @ [deviation],
           time_data := time_data st @ [time_elapsed st],
           time_elapsed := time_elapsed st + dt_control\<rparr>"
  using assms
  by (auto simp add: tick_def Let_def split: if_splits sum.splits)

lemma norm2_axis: "norm2 (0, y) = \<bar>y\<bar>"
  by (simp add: norm2_def)

lemma sqrt_segment: "sqrt ((3 / 10)\<^sup>2 + (2 / 5)\<^sup>2) = 1 / 2"
proof -
  have "(3 / 10 :: real)\<^sup>2 + (2 / 5)\<^sup>2 = (1 / 2)\<^sup>2"
    by (simp add: power2_eq_square)
  then have "sqrt ((3 / 10)\<^sup>2 + (2 / 5)\<^sup>2) = sqrt ((1 / 2 :: real)\<^sup>2)"
    by (rule arg_cong)
  also have "\<dots> = \<bar>1 / 2\<bar>" by (rule real_sqrt_abs)
  finally show ?thesis by simp
qed

text \<open>
  A pass of the loop for the segment from \<open>(0, 0)\<close> to \<open>(0.3, 0.4)\<close> with the ball at
  \<open>(0.3, - 0.1)\<close>, the gains of the main program, and a simulation that moves the ball by
  the control times 0.01.
\<close>

lemma tick_example:
  "tick \<lparr>xpos = \<lambda>s. s, mj_step = \<lambda>s c. vadd s (vscale c 0.01)\<rparr> (0, 0) (0.3, 0.4)
     \<lparr>pid_x = \<lparr>kp = 0.45, ki = 0, kd = 0.5, setpoint = 0.3, previous_error = 0, integral = 0\<rparr>,
      pid_y = \<lparr>kp = 0.45, ki = 0, kd = 0.5, setpoint = 0.4, previous_error = 0, integral = 0\<rparr>,
      data = (0.3, - 0.1), ctrl_log = [], deviation_data = [], time_data = [],
      time_elapsed = 0\<rparr>
   = Inr (Some
     \<lparr>pid_x = \<lparr>kp = 0.45, ki = 0, kd = 0.5, setpoint = 0.3, previous_error = 0, integral = 0\<rparr>,
      pid_y = \<lparr>kp = 0.45, ki = 0, kd = 0.5, setpoint = 0.4, previous_error = 0.5,
               integral = 0.005\<rparr>,
      data = (0.3, - 0.05), ctrl_log = [(0, 5)], deviation_data = [0.255], time_data = [0],
      time_elapsed = 0.01\<rparr>)"
  by (simp add: tick_def Let_def vsub_def vadd_def vscale_def norm2_axis compute_total
      desired_speed_of_cases normalize_control_cases deviation_of_def sqrt_segment)
    (simp add: dt_control_def)

text \<open>
  C7. The desired speed is 10 when the distance to the end of the segment is at least 1,
  and the greater of 1 and ten times the distance otherwise, so it is between 1 and 10.
  The normalization divides the vector of the two PID outputs by its magnitude and
  multiplies it by the desired speed when the magnitude is not zero, which is when the
  vector is not the zero vector, and leaves the vector as it is when the magnitude is
  zero; the normalized vector has the magnitude of the desired speed. A pass of the loop
  that does not leave the segment writes this vector to the control of the simulation
  and steps the simulation under it.
\<close>

theorem follower_speed_and_control:
  "desired_speed_of d = (if 1 \<le> d then 10 else max 1 (d * 10))
   \<and> 1 \<le> desired_speed_of d \<and> desired_speed_of d \<le> 10
   \<and> normalize_control v s
       = (if norm2 v = 0 then v else (fst v / norm2 v * s, snd v / norm2 v * s))
   \<and> (norm2 v = 0 \<longleftrightarrow> v = (0, 0))
   \<and> (v \<noteq> (0, 0) \<longrightarrow>
        norm2 (fst v / norm2 v, snd v / norm2 v) = 1 \<and> norm2 (normalize_control v s) = \<bar>s\<bar>)
   \<and> (\<forall>st'. tick sim start_pos end_pos st = Inr (Some st') \<longrightarrow>
        (\<exists>cx cy px py.
           compute (pid_x st) (fst (xpos sim (data st))) dt_control = Inr (cx, px)
           \<and> compute (pid_y st) (snd (xpos sim (data st))) dt_control = Inr (cy, py)
           \<and> ctrl_log st' = ctrl_log st @
               [normalize_control (cx, cy)
                  (desired_speed_of (norm2 (vsub end_pos (xpos sim (data st)))))]
           \<and> data st' = mj_step sim (data st)
               (normalize_control (cx, cy)
                  (desired_speed_of (norm2 (vsub end_pos (xpos sim (data st))))))))"
proof (intro conjI allI impI)
  show "desired_speed_of d = (if 1 \<le> d then 10 else max 1 (d * 10))"
    by (rule desired_speed_of_cases)
  show "1 \<le> desired_speed_of d" "desired_speed_of d \<le> 10"
    using desired_speed_of_range[of d] by simp_all
  show "normalize_control v s
      = (if norm2 v = 0 then v else (fst v / norm2 v * s, snd v / norm2 v * s))"
    by (rule normalize_control_cases)
  show "norm2 v = 0 \<longleftrightarrow> v = (0, 0)" by (rule norm2_eq_0_iff)
next
  assume v: "v \<noteq> (0, 0)"
  then have "norm2 v \<noteq> 0" by (simp add: norm2_eq_0_iff)
  then show "norm2 (fst v / norm2 v, snd v / norm2 v) = 1" by (rule norm2_normalized)
  from v show "norm2 (normalize_control v s) = \<bar>s\<bar>" by (rule norm2_normalize_control)
next
  fix st'
  assume "tick sim start_pos end_pos st = Inr (Some st')"
  then show "\<exists>cx cy px py.
           compute (pid_x st) (fst (xpos sim (data st))) dt_control = Inr (cx, px)
           \<and> compute (pid_y st) (snd (xpos sim (data st))) dt_control = Inr (cy, py)
           \<and> ctrl_log st' = ctrl_log st @
               [normalize_control (cx, cy)
                  (desired_speed_of (norm2 (vsub end_pos (xpos sim (data st)))))]
           \<and> data st' = mj_step sim (data st)
               (normalize_control (cx, cy)
                  (desired_speed_of (norm2 (vsub end_pos (xpos sim (data st))))))"
    by (rule tick_Some) simp
qed

theorem follower_speed_and_control_witness:
  "desired_speed_of 0.5 = 5
   \<and> (0, 25.225) \<noteq> ((0, 0) :: pos)
   \<and> norm2 (normalize_control (0, 25.225) 5) = 5
   \<and> tick \<lparr>xpos = \<lambda>s. s, mj_step = \<lambda>s c. vadd s (vscale c 0.01)\<rparr> (0, 0) (0.3, 0.4)
       \<lparr>pid_x = \<lparr>kp = 0.45, ki = 0, kd = 0.5, setpoint = 0.3, previous_error = 0,
                 integral = 0\<rparr>,
        pid_y = \<lparr>kp = 0.45, ki = 0, kd = 0.5, setpoint = 0.4, previous_error = 0,
                 integral = 0\<rparr>,
        data = (0.3, - 0.1), ctrl_log = [], deviation_data = [], time_data = [],
        time_elapsed = 0\<rparr>
     = Inr (Some
       \<lparr>pid_x = \<lparr>kp = 0.45, ki = 0, kd = 0.5, setpoint = 0.3, previous_error = 0,
                 integral = 0\<rparr>,
        pid_y = \<lparr>kp = 0.45, ki = 0, kd = 0.5, setpoint = 0.4, previous_error = 0.5,
                 integral = 0.005\<rparr>,
        data = (0.3, - 0.05), ctrl_log = [(0, 5)], deviation_data = [0.255], time_data = [0],
        time_elapsed = 0.01\<rparr>)
   \<and> [(0, 5)] = [] @ [normalize_control (0, 25.225)
                        (desired_speed_of (norm2 (vsub (0.3, 0.4) (0.3, - 0.1))))]
   \<and> (0.3, - 0.05) = vadd (0.3, - 0.1)
        (vscale (normalize_control (0, 25.225)
                   (desired_speed_of (norm2 (vsub (0.3, 0.4) (0.3, - 0.1))))) 0.01)"
proof -
  let ?sim = "\<lparr>xpos = \<lambda>s. s, mj_step = \<lambda>s c. vadd s (vscale c 0.01)\<rparr> :: pos simulation"
  let ?px = "\<lparr>kp = 0.45, ki = 0, kd = 0.5, setpoint = 0.3, previous_error = 0, integral = 0\<rparr>"
  let ?py = "\<lparr>kp = 0.45, ki = 0, kd = 0.5, setpoint = 0.4, previous_error = 0, integral = 0\<rparr>"
  let ?st = "\<lparr>pid_x = ?px, pid_y = ?py, data = (0.3, - 0.1), ctrl_log = [],
      deviation_data = [], time_data = [], time_elapsed = 0\<rparr> :: pos follower"
  let ?st' = "\<lparr>pid_x = ?px,
      pid_y = \<lparr>kp = 0.45, ki = 0, kd = 0.5, setpoint = 0.4, previous_error = 0.5,
               integral = 0.005\<rparr>,
      data = (0.3, - 0.05), ctrl_log = [(0, 5)], deviation_data = [0.255], time_data = [0],
      time_elapsed = 0.01\<rparr> :: pos follower"
  let ?s = "desired_speed_of (norm2 (vsub (0.3, 0.4) (0.3, - 0.1)))"
  note th = follower_speed_and_control[where d = "0.5" and v = "(0, 25.225)" and s = 5
      and sim = ?sim and start_pos = "(0, 0)" and end_pos = "(0.3, 0.4)" and st = ?st]
  from th[THEN conjunct1] have a: "desired_speed_of 0.5 = 5" by simp
  have b: "(0, 25.225) \<noteq> ((0, 0) :: pos)" by simp
  from th[THEN conjunct2, THEN conjunct2, THEN conjunct2, THEN conjunct2, THEN conjunct2,
      THEN conjunct1] b
  have "norm2 (normalize_control (0, 25.225) 5) = \<bar>5\<bar>" by blast
  then have c: "norm2 (normalize_control (0, 25.225) 5) = 5" by simp
  have t: "tick ?sim (0, 0) (0.3, 0.4) ?st = Inr (Some ?st')" by (rule tick_example)
  from th[THEN conjunct2, THEN conjunct2, THEN conjunct2, THEN conjunct2, THEN conjunct2,
      THEN conjunct2] t
  obtain cx cy px py where
    cx: "compute (pid_x ?st) (fst (xpos ?sim (data ?st))) dt_control = Inr (cx, px)"
    and cy: "compute (pid_y ?st) (snd (xpos ?sim (data ?st))) dt_control = Inr (cy, py)"
    and l: "ctrl_log ?st' = ctrl_log ?st @
        [normalize_control (cx, cy)
           (desired_speed_of (norm2 (vsub (0.3, 0.4) (xpos ?sim (data ?st)))))]"
    and d: "data ?st' = mj_step ?sim (data ?st)
        (normalize_control (cx, cy)
           (desired_speed_of (norm2 (vsub (0.3, 0.4) (xpos ?sim (data ?st))))))"
    by blast
  from cx have cxv: "cx = 0" by (simp add: compute_total)
  from cy have cyv: "cy = 25.225" by (simp add: compute_total) (simp add: dt_control_def)
  have l': "[(0, 5)] = [] @ [normalize_control (0, 25.225) ?s]"
    using l unfolding cxv cyv by simp
  have d': "(0.3, - 0.05) = vadd (0.3, - 0.1) (vscale (normalize_control (0, 25.225) ?s) 0.01)"
    using d unfolding cxv cyv by simp
  from a b c t l' d' show ?thesis by (intro conjI)
qed

text \<open>
  C4. The normalized direction of a segment is the direction divided by its length, with
  no test of the length: for a path whose first two waypoints are the same, the follower
  divides by zero before the loop of the segment starts. The deviation sample of a pass
  of the loop divides by the same length.
\<close>

theorem degenerate_segment_not_guarded:
  "move_ball_along_path_with_pid fuel sim d (a # a # rest) px py = Inl DivisionByZero
   \<and> segments_loop fuel sim (a # a # rest) st = Inl DivisionByZero
   \<and> deviation_of a a P = Inl DivisionByZero"
  by (simp add: move_ball_along_path_with_pid_def vdiv_def vsub_def norm2_def deviation_of_def)

text \<open>
  C5. In the deviation sample only the second product is divided by the length of the
  segment. For the segment from \<open>(0, 0)\<close> to \<open>(0.3, 0.4)\<close> and the ball at
  \<open>(0.3, - 0.05)\<close> after the step, the sample is 0.255, and the signed perpendicular
  deviation, the difference of the two products divided by the length, is 0.27.
\<close>

theorem deviation_sample_precedence:
  "tick \<lparr>xpos = \<lambda>s. s, mj_step = \<lambda>s c. vadd s (vscale c 0.01)\<rparr> (0, 0) (0.3, 0.4)
       \<lparr>pid_x = \<lparr>kp = 0.45, ki = 0, kd = 0.5, setpoint = 0.3, previous_error = 0,
                 integral = 0\<rparr>,
        pid_y = \<lparr>kp = 0.45, ki = 0, kd = 0.5, setpoint = 0.4, previous_error = 0,
                 integral = 0\<rparr>,
        data = (0.3, - 0.1), ctrl_log = [], deviation_data = [], time_data = [],
        time_elapsed = 0\<rparr>
     = Inr (Some
       \<lparr>pid_x = \<lparr>kp = 0.45, ki = 0, kd = 0.5, setpoint = 0.3, previous_error = 0,
                 integral = 0\<rparr>,
        pid_y = \<lparr>kp = 0.45, ki = 0, kd = 0.5, setpoint = 0.4, previous_error = 0.5,
                 integral = 0.005\<rparr>,
        data = (0.3, - 0.05), ctrl_log = [(0, 5)], deviation_data = [0.255], time_data = [0],
        time_elapsed = 0.01\<rparr>)
   \<and> deviation_of (0, 0) (0.3, 0.4) (0.3, - 0.05) = Inr 0.255
   \<and> norm2 (vsub (0.3, 0.4) (0, 0)) = 0.5
   \<and> ((0.3 - 0) * (0 - (- 0.05)) - (0 - 0.3) * (0.4 - 0)) / norm2 (vsub (0.3, 0.4) (0, 0))
     = 0.27"
proof (intro conjI)
  show "norm2 (vsub (0.3, 0.4) (0, 0)) = 0.5"
    by (simp add: norm2_def vsub_def sqrt_segment)
  show "deviation_of (0, 0) (0.3, 0.4) (0.3, - 0.05) = Inr 0.255"
    by (simp add: deviation_of_def sqrt_segment)
  show "((0.3 - 0) * (0 - (- 0.05)) - (0 - 0.3) * (0.4 - 0)) / norm2 (vsub (0.3, 0.4) (0, 0))
     = 0.27"
    by (simp add: norm2_def vsub_def sqrt_segment)
qed (rule tick_example)

end
